theory Spec2Isabelle
  imports Main "HOL-Library.Word"
begin

unbundle bit_operations_syntax

section \<open>The external scanner of tree-sitter-neon (src/scanner.c)\<close>

text \<open>
  The scanner recognises three token kinds inside string literals: literal text,
  the interpolation opener \<open>${\<close> and the interpolation closer \<open>}\<close>. Its only
  state is the integer \<open>brace_depth\<close>. The C \<open>int\<close> is taken as a 32-bit
  two's-complement word, \<open>char\<close> as an 8-bit byte, and the lookahead character as
  the 32-bit code point the lexer exposes.
\<close>

type_synonym int32 = "32 word"
type_synonym byte = "8 word"

datatype TokenType = STRING_CONTENT | STRING_INTERPOLATION_START | STRING_INTERPOLATION_END

record Scanner =
  brace_depth :: int32

subsection \<open>The lexer handed in by the host\<close>

text \<open>
  Modelled from the spec: the \<open>TSLexer\<close> type of \<open>tree_sitter/parser.h\<close> is not
  part of the sources. Section 6 of the specification lists what the scanner needs
  from it: peek the current character (a sentinel, 0, at the end of input), advance by
  one character, mark the end of the token (commit everything consumed so far as the
  token's span) and a settable slot for the recognised kind. The cursor is an index
  into the source text; \<open>token_end\<close> is \<open>None\<close> until \<open>mark_end\<close> is called.
\<close>

record TSLexer =
  source_text :: "int32 list"
  cursor :: nat
  token_end :: "nat option"
  result_symbol :: TokenType

definition char_at :: "int32 list \<Rightarrow> nat \<Rightarrow> int32" where
  "char_at txt i = (if i < length txt then txt ! i else 0)"

definition lookahead :: "TSLexer \<Rightarrow> int32" where
  "lookahead lexer = char_at (source_text lexer) (cursor lexer)"

definition advance :: "TSLexer \<Rightarrow> TSLexer" where
  "advance lexer =
     (if cursor lexer < length (source_text lexer)
      then lexer\<lparr>cursor := Suc (cursor lexer)\<rparr>
      else lexer)"

definition mark_end :: "TSLexer \<Rightarrow> TSLexer" where
  "mark_end lexer = lexer\<lparr>token_end := Some (cursor lexer)\<rparr>"

text \<open>
  The end of the committed span: the marked end, or the cursor when no end was
  marked. The committed text of a token that started at index \<open>start\<close> is the
  slice of the source text from \<open>start\<close> up to that end.
\<close>

definition committed_end :: "TSLexer \<Rightarrow> nat" where
  "committed_end lexer = (case token_end lexer of Some e \<Rightarrow> e | None \<Rightarrow> cursor lexer)"

definition committed_text :: "nat \<Rightarrow> TSLexer \<Rightarrow> int32 list" where
  "committed_text start lexer =
     take (committed_end lexer - start) (drop start (source_text lexer))"

text \<open>The character literals the scanner compares the lookahead with.\<close>

abbreviation DOLLAR :: int32 where "DOLLAR \<equiv> 0x24"
abbreviation LBRACE :: int32 where "LBRACE \<equiv> 0x7B"
abbreviation RBRACE :: int32 where "RBRACE \<equiv> 0x7D"
abbreviation DQUOTE :: int32 where "DQUOTE \<equiv> 0x22"
abbreviation BACKSLASH :: int32 where "BACKSLASH \<equiv> 0x5C"

subsection \<open>Creation and the state codec\<close>

definition create :: Scanner where
  "create = \<lparr>brace_depth = 0\<rparr>"

text \<open>
  \<open>memcpy\<close> of an \<open>int\<close> to and from a byte buffer, in the byte order of the
  platform; the little-endian order is written out here.
\<close>

definition bytes_of_int :: "int32 \<Rightarrow> byte list" where
  "bytes_of_int w =
     [ucast w, ucast (drop_bit 8 w), ucast (drop_bit 16 w), ucast (drop_bit 24 w)]"

definition int_of_bytes :: "byte list \<Rightarrow> int32" where
  "int_of_bytes bs =
     (ucast (bs ! 0)) OR push_bit 8 (ucast (bs ! 1))
       OR push_bit 16 (ucast (bs ! 2)) OR push_bit 24 (ucast (bs ! 3))"

definition sizeof_int :: nat where
  "sizeof_int = 4"

text \<open>
  \<open>serialize\<close> writes \<open>sizeof(int)\<close> bytes at the start of the buffer and returns
  that count; the model returns the bytes written, whose length is the count.
\<close>

definition serialize :: "Scanner \<Rightarrow> byte list" where
  "serialize scanner =
     (if sizeof_int > 0 then bytes_of_int (brace_depth scanner) else [])"

text \<open>
  \<open>deserialize\<close> receives a buffer and its length; the buffer is the list of its
  \<open>length\<close> bytes. A buffer of one to three bytes makes \<open>memcpy\<close> read past its
  end, which is undefined behaviour: the model returns \<open>None\<close> there.
\<close>

definition deserialize :: "Scanner \<Rightarrow> byte list \<Rightarrow> Scanner option" where
  "deserialize scanner buffer =
     (if length buffer > 0 then
        (if sizeof_int \<le> length buffer
         then Some (scanner\<lparr>brace_depth := int_of_bytes (take sizeof_int buffer)\<rparr>)
         else None)
      else Some scanner)"

subsection \<open>The scan function\<close>

text \<open>
  A branch of \<open>scan\<close> either returns from the function (\<open>Return\<close>, with the
  boolean result) or falls through to the code after it (\<open>Fallthrough\<close>); both carry
  the scanner state and the lexer as the branch left them.
\<close>

datatype flow = Return bool Scanner TSLexer | Fallthrough Scanner TSLexer

definition interpolation_start :: "Scanner \<Rightarrow> TSLexer \<Rightarrow> (TokenType \<Rightarrow> bool) \<Rightarrow> flow" where
  "interpolation_start scanner lexer valid_symbols =
     (if valid_symbols STRING_INTERPOLATION_START then
        (if lookahead lexer = DOLLAR then
           (if lookahead (advance lexer) = LBRACE then
              Return True (scanner\<lparr>brace_depth := 1\<rparr>)
                ((mark_end (advance (advance lexer)))\<lparr>result_symbol := STRING_INTERPOLATION_START\<rparr>)
            else Fallthrough scanner (advance lexer))
         else Fallthrough scanner lexer)
      else Fallthrough scanner lexer)"

definition interpolation_end :: "Scanner \<Rightarrow> TSLexer \<Rightarrow> (TokenType \<Rightarrow> bool) \<Rightarrow> flow" where
  "interpolation_end scanner lexer valid_symbols =
     (if valid_symbols STRING_INTERPOLATION_END then
        (if lookahead lexer = RBRACE \<and> 0 <s brace_depth scanner then
           Return True (scanner\<lparr>brace_depth := 0\<rparr>)
             ((mark_end (advance lexer))\<lparr>result_symbol := STRING_INTERPOLATION_END\<rparr>)
         else Fallthrough scanner lexer)
      else Fallthrough scanner lexer)"

text \<open>
  The \<open>while (true)\<close> loop of the content branch. It leaves either by \<open>break\<close>
  (\<open>Broke\<close>, with the flag \<open>has_content\<close>) or by the \<open>return has_content\<close> in
  front of an interpolation opener (\<open>Returned\<close>).
\<close>

datatype loop_exit = Broke bool TSLexer | Returned bool TSLexer

function content_loop :: "bool \<Rightarrow> TSLexer \<Rightarrow> loop_exit" where
  "content_loop has_content lexer =
     (if lookahead lexer = DQUOTE \<or> lookahead lexer = 0 then Broke has_content lexer
      else if lookahead lexer = BACKSLASH then Broke has_content lexer
      else if lookahead lexer = DOLLAR then
        (if lookahead (advance (mark_end lexer)) = LBRACE
         then Returned has_content (advance (mark_end lexer))
         else content_loop True (advance (mark_end lexer)))
      else content_loop True (advance lexer))"
  by pat_completeness auto
termination
  by (relation "measure (\<lambda>(h, lexer). length (source_text lexer) - cursor lexer)")
     (auto simp: lookahead_def char_at_def advance_def mark_end_def split: if_splits)

declare content_loop.simps [simp del]

definition string_content :: "Scanner \<Rightarrow> TSLexer \<Rightarrow> (TokenType \<Rightarrow> bool) \<Rightarrow> flow" where
  "string_content scanner lexer valid_symbols =
     (if valid_symbols STRING_CONTENT then
        (case content_loop False lexer of
           Returned has_content lexer' \<Rightarrow> Return has_content scanner lexer'
         | Broke has_content lexer' \<Rightarrow>
             (if has_content
              then Return True scanner ((mark_end lexer')\<lparr>result_symbol := STRING_CONTENT\<rparr>)
              else Fallthrough scanner lexer'))
      else Fallthrough scanner lexer)"

record ScanResult =
  recognized :: bool
  scanner_after :: Scanner
  lexer_after :: TSLexer

definition scan :: "Scanner \<Rightarrow> TSLexer \<Rightarrow> (TokenType \<Rightarrow> bool) \<Rightarrow> ScanResult" where
  "scan scanner lexer valid_symbols =
     (case interpolation_start scanner lexer valid_symbols of
        Return b s l \<Rightarrow> \<lparr>recognized = b, scanner_after = s, lexer_after = l\<rparr>
      | Fallthrough s1 l1 \<Rightarrow>
     (case interpolation_end s1 l1 valid_symbols of
        Return b s l \<Rightarrow> \<lparr>recognized = b, scanner_after = s, lexer_after = l\<rparr>
      | Fallthrough s2 l2 \<Rightarrow>
     (case string_content s2 l2 valid_symbols of
        Return b s l \<Rightarrow> \<lparr>recognized = b, scanner_after = s, lexer_after = l\<rparr>
      | Fallthrough s3 l3 \<Rightarrow> \<lparr>recognized = False, scanner_after = s3, lexer_after = l3\<rparr>)))"

text \<open>A scan emits a kind when it returns true with that kind in the result slot.\<close>

definition emits :: "ScanResult \<Rightarrow> TokenType \<Rightarrow> bool" where
  "emits r k = (recognized r \<and> result_symbol (lexer_after r) = k)"

subsection \<open>Vocabulary of the properties\<close>

text \<open>
  The characters at which a text run stops without consuming them: the closing quote,
  the end-of-input sentinel and the escape introducer.
\<close>

definition stops_run :: "int32 \<Rightarrow> bool" where
  "stops_run c = (c = DQUOTE \<or> c = 0 \<or> c = BACKSLASH)"

text \<open>An interpolation opener \<open>${\<close> begins at index \<open>i\<close> of the text.\<close>

definition opener_at :: "int32 list \<Rightarrow> nat \<Rightarrow> bool" where
  "opener_at txt i = (char_at txt i = DOLLAR \<and> char_at txt (Suc i) = LBRACE)"

text \<open>
  No index in \<open>[a, b)\<close> holds a stopping character or the \<open>$\<close> of an opener
  (whose \<open>{\<close> may lie at \<open>b\<close> itself).
\<close>

definition plain_between :: "int32 list \<Rightarrow> nat \<Rightarrow> nat \<Rightarrow> bool" where
  "plain_between txt a b =
     (\<forall>i \<in> {a ..< b}. \<not> stops_run (char_at txt i) \<and> \<not> opener_at txt i)"

text \<open>
  The lexer as the host hands it to scan at index \<open>i\<close> of a text: no token end
  marked yet and the result slot cleared (its zero value is \<open>STRING_CONTENT\<close>).
  The accepted kinds, given as a list.
\<close>

definition lexer_at :: "int32 list \<Rightarrow> nat \<Rightarrow> TSLexer" where
  "lexer_at txt i =
     \<lparr>source_text = txt, cursor = i, token_end = None, result_symbol = STRING_CONTENT\<rparr>"

definition accepting :: "TokenType list \<Rightarrow> TokenType \<Rightarrow> bool" where
  "accepting kinds k = (k \<in> set kinds)"

text \<open>The invariant of section 3 of the specification.\<close>

definition depth_ok :: "Scanner \<Rightarrow> bool" where
  "depth_ok scanner = (brace_depth scanner = 0 \<or> brace_depth scanner = 1)"

subsection \<open>Sessions\<close>

text \<open>
  A session is driven by the host. It creates the scanner (and may discard it and
  create it again), calls \<open>scan\<close>, takes snapshots of the state with
  \<open>serialize\<close> and hands them back to \<open>deserialize\<close> around edits. The host
  keeps the snapshots: the serialized form is only ever read back by the runtime that
  wrote it. A \<open>deserialize\<close> therefore receives either one of the snapshots taken
  so far or, when the host has none to restore, the zero-length buffer.
\<close>

record Host =
  payload :: Scanner
  snapshots :: "byte list list"

datatype operation =
    Create
  | Scan TSLexer "TokenType \<Rightarrow> bool"
  | Serialize
  | Deserialize "nat option"

definition snapshot_buffer :: "byte list list \<Rightarrow> nat option \<Rightarrow> byte list" where
  "snapshot_buffer snaps which =
     (case which of
        None \<Rightarrow> []
      | Some k \<Rightarrow> (if k < length snaps then snaps ! k else []))"

fun apply_operation :: "Host \<Rightarrow> operation \<Rightarrow> Host option" where
  "apply_operation host Create = Some (host\<lparr>payload := create\<rparr>)"
| "apply_operation host (Scan lexer valid_symbols) =
     Some (host\<lparr>payload := scanner_after (scan (payload host) lexer valid_symbols)\<rparr>)"
| "apply_operation host Serialize =
     Some (host\<lparr>snapshots := snapshots host @ [serialize (payload host)]\<rparr>)"
| "apply_operation host (Deserialize which) =
     (case deserialize (payload host) (snapshot_buffer (snapshots host) which) of
        None \<Rightarrow> None
      | Some scanner' \<Rightarrow> Some (host\<lparr>payload := scanner'\<rparr>))"

fun session :: "Host \<Rightarrow> operation list \<Rightarrow> Host option" where
  "session host [] = Some host"
| "session host (operation # operations) =
     (case apply_operation host operation of
        None \<Rightarrow> None
      | Some host' \<Rightarrow> session host' operations)"

definition new_session :: Host where
  "new_session = \<lparr>payload = create, snapshots = []\<rparr>"

text \<open>
  The invariant carried through a session: the state is within the invariant of
  section 3, and every snapshot is the empty buffer or one whose first
  \<open>sizeof(int)\<close> bytes encode 0 or 1.
\<close>

definition restorable :: "byte list \<Rightarrow> bool" where
  "restorable buffer =
     (buffer = [] \<or>
      (sizeof_int \<le> length buffer \<and>
       (int_of_bytes (take sizeof_int buffer) = 0 \<or> int_of_bytes (take sizeof_int buffer) = 1)))"

definition host_ok :: "Host \<Rightarrow> bool" where
  "host_ok host = (depth_ok (payload host) \<and> list_all restorable (snapshots host))"

section \<open>The state codec\<close>

lemma int_of_bytes_of_int: "int_of_bytes (bytes_of_int w) = w"
proof (rule bit_word_eqI)
  fix n assume n: "n < LENGTH(32)"
  then consider "n < 8" | "8 \<le> n" "n < 16" | "16 \<le> n" "n < 24" | "24 \<le> n" "n < 32"
    by fastforce
  then show "bit (int_of_bytes (bytes_of_int w)) n = bit w n"
    by cases (auto simp add: int_of_bytes_def bytes_of_int_def bit_simps)
qed

lemma four_bytes:
  assumes "length bs = 4"
  obtains a b c d where "bs = [a, b, c, d]"
proof -
  from assms obtain a r1 where "bs = a # r1" "length r1 = 3" by (cases bs) auto
  moreover then obtain b r2 where "r1 = b # r2" "length r2 = 2" by (cases r1) auto
  moreover then obtain c r3 where "r2 = c # r3" "length r3 = 1" by (cases r2) auto
  moreover then obtain d where "r3 = [d]" by (cases r3) auto
  ultimately show thesis using that by simp
qed

lemma bytes_of_int_of_bytes:
  assumes "length bs = 4"
  shows "bytes_of_int (int_of_bytes bs) = bs"
proof -
  from assms obtain a b c d where bs: "bs = [a, b, c, d]" by (rule four_bytes)
  have "ucast (int_of_bytes [a, b, c, d]) = a"
    by (rule bit_word_eqI) (auto simp add: int_of_bytes_def bit_simps dest: bit_imp_le_length)
  moreover have "ucast (drop_bit 8 (int_of_bytes [a, b, c, d])) = b"
    by (rule bit_word_eqI) (auto simp add: int_of_bytes_def bit_simps dest: bit_imp_le_length)
  moreover have "ucast (drop_bit 16 (int_of_bytes [a, b, c, d])) = c"
    by (rule bit_word_eqI) (auto simp add: int_of_bytes_def bit_simps dest: bit_imp_le_length)
  moreover have "ucast (drop_bit 24 (int_of_bytes [a, b, c, d])) = d"
    by (rule bit_word_eqI) (auto simp add: int_of_bytes_def bit_simps dest: bit_imp_le_length)
  ultimately show ?thesis by (simp add: bs bytes_of_int_def)
qed

lemma length_bytes_of_int: "length (bytes_of_int w) = 4"
  by (simp add: bytes_of_int_def)

lemma deserialize_serialize_any: "deserialize t (serialize s) = Some (t\<lparr>brace_depth := brace_depth s\<rparr>)"
  by (simp add: deserialize_def serialize_def sizeof_int_def int_of_bytes_of_int length_bytes_of_int)

section \<open>The lexer and the content loop\<close>

lemma lookahead_nonzero_advance:
  "lookahead lexer \<noteq> 0 \<Longrightarrow> advance lexer = lexer\<lparr>cursor := Suc (cursor lexer)\<rparr>"
  by (auto simp: lookahead_def char_at_def advance_def)

lemma lookahead_mark_end: "lookahead (mark_end lexer) = lookahead lexer"
  by (simp add: lookahead_def mark_end_def)

lemma plain_between_step:
  "\<not> stops_run (char_at txt a) \<Longrightarrow> \<not> opener_at txt a \<Longrightarrow> plain_between txt (Suc a) b
     \<Longrightarrow> plain_between txt a b"
  unfolding plain_between_def
  by (metis atLeastLessThan_iff le_antisym not_less_eq_eq)

lemma plain_between_empty: "plain_between txt a a"
  by (simp add: plain_between_def)

lemma content_loop_stop:
  "stops_run (lookahead lexer) \<Longrightarrow> content_loop h lexer = Broke h lexer"
  by (subst content_loop.simps) (auto simp: stops_run_def)

lemma content_loop_opener:
  "lookahead lexer = DOLLAR \<Longrightarrow> lookahead (advance (mark_end lexer)) = LBRACE \<Longrightarrow>
     content_loop h lexer = Returned h (advance (mark_end lexer))"
  by (subst content_loop.simps) simp

lemma content_loop_dollar:
  "lookahead lexer = DOLLAR \<Longrightarrow> lookahead (advance (mark_end lexer)) \<noteq> LBRACE \<Longrightarrow>
     content_loop h lexer = content_loop True (advance (mark_end lexer))"
  by (subst content_loop.simps) simp

lemma content_loop_plain:
  "\<not> stops_run (lookahead lexer) \<Longrightarrow> lookahead lexer \<noteq> DOLLAR \<Longrightarrow>
     content_loop h lexer = content_loop True (advance lexer)"
  by (subst content_loop.simps) (auto simp: stops_run_def)

lemma advance_mark_end_at_dollar:
  "lookahead lexer = DOLLAR \<Longrightarrow>
     advance (mark_end lexer) = lexer\<lparr>token_end := Some (cursor lexer), cursor := Suc (cursor lexer)\<rparr>"
  by (auto simp: lookahead_def char_at_def advance_def mark_end_def split: if_splits)

text \<open>What the loop guarantees when it leaves by \<open>return has_content\<close>.\<close>

lemma content_loop_Returned:
  "content_loop h lexer = Returned h' lexer' \<Longrightarrow>
     source_text lexer' = source_text lexer \<and> result_symbol lexer' = result_symbol lexer
     \<and> (\<exists>e. token_end lexer' = Some e \<and> cursor lexer' = Suc e \<and> cursor lexer \<le> e
            \<and> (h' \<longleftrightarrow> h \<or> cursor lexer < e)
            \<and> opener_at (source_text lexer) e
            \<and> plain_between (source_text lexer) (cursor lexer) e)"
proof (induction h lexer rule: content_loop.induct)
  case (1 has_content lexer)
  show ?case
  proof (cases "stops_run (lookahead lexer)")
    case True
    with "1.prems" show ?thesis by (simp add: content_loop_stop)
  next
    case stop: False
    then have nz: "lookahead lexer \<noteq> 0" and nq: "\<not> (lookahead lexer = DQUOTE \<or> lookahead lexer = 0)"
      and nb: "lookahead lexer \<noteq> BACKSLASH"
      by (simp_all add: stops_run_def)
    from stop have stop': "\<not> stops_run (char_at (source_text lexer) (cursor lexer))"
      by (simp add: lookahead_def)
    show ?thesis
    proof (cases "lookahead lexer = DOLLAR")
      case dollar: True
      let ?l1 = "advance (mark_end lexer)"
      have l1: "?l1 = lexer\<lparr>token_end := Some (cursor lexer), cursor := Suc (cursor lexer)\<rparr>"
        using dollar by (rule advance_mark_end_at_dollar)
      show ?thesis
      proof (cases "lookahead ?l1 = LBRACE")
        case True
        with dollar "1.prems" have "lexer' = ?l1" "h' = has_content"
          by (simp_all add: content_loop_opener)
        moreover have "opener_at (source_text lexer) (cursor lexer)"
          using dollar True by (simp add: opener_at_def l1 lookahead_def)
        ultimately show ?thesis by (simp add: l1 plain_between_empty)
      next
        case False
        with dollar "1.prems" have rec: "content_loop True ?l1 = Returned h' lexer'"
          by (simp add: content_loop_dollar)
        have ih: "source_text lexer' = source_text ?l1 \<and> result_symbol lexer' = result_symbol ?l1
          \<and> (\<exists>e. token_end lexer' = Some e \<and> cursor lexer' = Suc e \<and> cursor ?l1 \<le> e
            \<and> (h' \<longleftrightarrow> True \<or> cursor ?l1 < e)
            \<and> opener_at (source_text ?l1) e
            \<and> plain_between (source_text ?l1) (cursor ?l1) e)"
          using nq nb dollar False rec by (rule "1.IH"(1))
        have "\<not> opener_at (source_text lexer) (cursor lexer)"
          using False by (simp add: opener_at_def l1 lookahead_def)
        with ih stop' show ?thesis
          by (auto simp: l1 intro: plain_between_step)
      qed
    next
      case False
      let ?l1 = "advance lexer"
      have l1: "?l1 = lexer\<lparr>cursor := Suc (cursor lexer)\<rparr>"
        using nz by (rule lookahead_nonzero_advance)
      from False stop "1.prems" have rec: "content_loop True ?l1 = Returned h' lexer'"
        by (simp add: content_loop_plain)
      have ih: "source_text lexer' = source_text ?l1 \<and> result_symbol lexer' = result_symbol ?l1
          \<and> (\<exists>e. token_end lexer' = Some e \<and> cursor lexer' = Suc e \<and> cursor ?l1 \<le> e
            \<and> (h' \<longleftrightarrow> True \<or> cursor ?l1 < e)
            \<and> opener_at (source_text ?l1) e
            \<and> plain_between (source_text ?l1) (cursor ?l1) e)"
        using nq nb False rec by (rule "1.IH"(2))
      have "\<not> opener_at (source_text lexer) (cursor lexer)"
        using False by (simp add: opener_at_def lookahead_def)
      with ih stop' show ?thesis
        by (auto simp: l1 intro: plain_between_step)
    qed
  qed
qed

text \<open>What the loop guarantees when it leaves by \<open>break\<close>.\<close>

lemma content_loop_Broke:
  "content_loop h lexer = Broke h' lexer' \<Longrightarrow>
     source_text lexer' = source_text lexer \<and> result_symbol lexer' = result_symbol lexer
     \<and> cursor lexer \<le> cursor lexer'
     \<and> (h' \<longleftrightarrow> h \<or> cursor lexer < cursor lexer')
     \<and> (cursor lexer' = cursor lexer \<longrightarrow> lexer' = lexer)
     \<and> stops_run (lookahead lexer')
     \<and> plain_between (source_text lexer) (cursor lexer) (cursor lexer')"
proof (induction h lexer rule: content_loop.induct)
  case (1 has_content lexer)
  show ?case
  proof (cases "stops_run (lookahead lexer)")
    case True
    with "1.prems" show ?thesis by (simp add: content_loop_stop plain_between_empty)
  next
    case stop: False
    then have nz: "lookahead lexer \<noteq> 0" and nq: "\<not> (lookahead lexer = DQUOTE \<or> lookahead lexer = 0)"
      and nb: "lookahead lexer \<noteq> BACKSLASH"
      by (simp_all add: stops_run_def)
    from stop have stop': "\<not> stops_run (char_at (source_text lexer) (cursor lexer))"
      by (simp add: lookahead_def)
    show ?thesis
    proof (cases "lookahead lexer = DOLLAR")
      case dollar: True
      let ?l1 = "advance (mark_end lexer)"
      have l1: "?l1 = lexer\<lparr>token_end := Some (cursor lexer), cursor := Suc (cursor lexer)\<rparr>"
        using dollar by (rule advance_mark_end_at_dollar)
      have nbr: "lookahead ?l1 \<noteq> LBRACE"
        using dollar "1.prems" by (auto simp: content_loop_opener)
      with dollar "1.prems" have rec: "content_loop True ?l1 = Broke h' lexer'"
        by (simp add: content_loop_dollar)
      have ih: "source_text lexer' = source_text ?l1 \<and> result_symbol lexer' = result_symbol ?l1
        \<and> cursor ?l1 \<le> cursor lexer'
        \<and> (h' \<longleftrightarrow> True \<or> cursor ?l1 < cursor lexer')
        \<and> (cursor lexer' = cursor ?l1 \<longrightarrow> lexer' = ?l1)
        \<and> stops_run (lookahead lexer')
        \<and> plain_between (source_text ?l1) (cursor ?l1) (cursor lexer')"
        using nq nb dollar nbr rec by (rule "1.IH"(1))
      have "\<not> opener_at (source_text lexer) (cursor lexer)"
        using nbr by (simp add: opener_at_def l1 lookahead_def)
      with ih stop' show ?thesis
        by (auto simp: l1 intro: plain_between_step)
    next
      case False
      let ?l1 = "advance lexer"
      have l1: "?l1 = lexer\<lparr>cursor := Suc (cursor lexer)\<rparr>"
        using nz by (rule lookahead_nonzero_advance)
      from False stop "1.prems" have rec: "content_loop True ?l1 = Broke h' lexer'"
        by (simp add: content_loop_plain)
      have ih: "source_text lexer' = source_text ?l1 \<and> result_symbol lexer' = result_symbol ?l1
        \<and> cursor ?l1 \<le> cursor lexer'
        \<and> (h' \<longleftrightarrow> True \<or> cursor ?l1 < cursor lexer')
        \<and> (cursor lexer' = cursor ?l1 \<longrightarrow> lexer' = ?l1)
        \<and> stops_run (lookahead lexer')
        \<and> plain_between (source_text ?l1) (cursor ?l1) (cursor lexer')"
        using nq nb False rec by (rule "1.IH"(2))
      have "\<not> opener_at (source_text lexer) (cursor lexer)"
        using False by (simp add: opener_at_def lookahead_def)
      with ih stop' show ?thesis
        by (auto simp: l1 intro: plain_between_step)
    qed
  qed
qed

section \<open>The three branches of scan\<close>

lemma interpolation_start_Return:
  assumes "interpolation_start sc lx v = Return b sc' lx'"
  shows "b \<and> v STRING_INTERPOLATION_START \<and> opener_at (source_text lx) (cursor lx)
     \<and> sc' = sc\<lparr>brace_depth := 1\<rparr>
     \<and> lx' = lx\<lparr>cursor := cursor lx + 2, token_end := Some (cursor lx + 2),
                 result_symbol := STRING_INTERPOLATION_START\<rparr>"
  using assms
  by (auto simp: interpolation_start_def opener_at_def lookahead_def char_at_def advance_def
        mark_end_def split: if_splits)

lemma interpolation_start_Fallthrough:
  assumes "interpolation_start sc lx v = Fallthrough sc' lx'"
  shows "sc' = sc \<and> \<not> (v STRING_INTERPOLATION_START \<and> opener_at (source_text lx) (cursor lx))
     \<and> lx' = (if v STRING_INTERPOLATION_START \<and> lookahead lx = DOLLAR
              then lx\<lparr>cursor := Suc (cursor lx)\<rparr> else lx)"
  using assms
  by (auto simp: interpolation_start_def opener_at_def lookahead_def char_at_def advance_def
        mark_end_def split: if_splits)

lemma interpolation_start_opener:
  assumes "v STRING_INTERPOLATION_START" "opener_at (source_text lx) (cursor lx)"
  shows "interpolation_start sc lx v = Return True (sc\<lparr>brace_depth := 1\<rparr>)
           (lx\<lparr>cursor := cursor lx + 2, token_end := Some (cursor lx + 2),
                result_symbol := STRING_INTERPOLATION_START\<rparr>)"
  using assms
  by (auto simp: interpolation_start_def opener_at_def lookahead_def char_at_def advance_def
        mark_end_def split: if_splits)

lemma interpolation_end_Return:
  assumes "interpolation_end sc lx v = Return b sc' lx'"
  shows "b \<and> v STRING_INTERPOLATION_END \<and> lookahead lx = RBRACE \<and> 0 <s brace_depth sc
     \<and> sc' = sc\<lparr>brace_depth := 0\<rparr>
     \<and> lx' = lx\<lparr>cursor := Suc (cursor lx), token_end := Some (Suc (cursor lx)),
                 result_symbol := STRING_INTERPOLATION_END\<rparr>"
  using assms
  by (auto simp: interpolation_end_def lookahead_def char_at_def advance_def
        mark_end_def split: if_splits)

lemma interpolation_end_Fallthrough:
  assumes "interpolation_end sc lx v = Fallthrough sc' lx'"
  shows "sc' = sc \<and> lx' = lx
     \<and> \<not> (v STRING_INTERPOLATION_END \<and> lookahead lx = RBRACE \<and> 0 <s brace_depth sc)"
  using assms
  by (auto simp: interpolation_end_def split: if_splits)

lemma string_content_Return:
  assumes "string_content sc lx v = Return b sc' lx'"
  shows "v STRING_CONTENT \<and> sc' = sc \<and> source_text lx' = source_text lx
     \<and> (\<exists>e. token_end lx' = Some e \<and> cursor lx \<le> e \<and> (b \<longleftrightarrow> cursor lx < e)
           \<and> plain_between (source_text lx) (cursor lx) e
           \<and> ((b \<and> cursor lx' = e \<and> stops_run (char_at (source_text lx) e)
                  \<and> result_symbol lx' = STRING_CONTENT)
               \<or> (cursor lx' = Suc e \<and> opener_at (source_text lx) e
                  \<and> result_symbol lx' = result_symbol lx)))"
proof -
  from assms have v: "v STRING_CONTENT"
    by (simp add: string_content_def split: if_splits)
  show ?thesis
  proof (cases "content_loop False lx")
    case (Broke h l)
    with assms v have b: "b" "h" and lx': "lx' = (mark_end l)\<lparr>result_symbol := STRING_CONTENT\<rparr>"
      and sc: "sc' = sc"
      by (auto simp: string_content_def split: if_splits)
    from content_loop_Broke [OF Broke] b
    show ?thesis
      by (auto simp: v sc lx' mark_end_def lookahead_def)
  next
    case (Returned h l)
    with assms v have "b = h" "lx' = l" "sc' = sc"
      by (auto simp: string_content_def)
    with content_loop_Returned [OF Returned] v show ?thesis
      by auto
  qed
qed

lemma string_content_Fallthrough:
  assumes "string_content sc lx v = Fallthrough sc' lx'"
  shows "sc' = sc \<and> lx' = lx \<and> (v STRING_CONTENT \<longrightarrow> stops_run (lookahead lx))"
proof (cases "v STRING_CONTENT")
  case False
  with assms show ?thesis by (simp add: string_content_def)
next
  case v: True
  show ?thesis
  proof (cases "content_loop False lx")
    case (Broke h l)
    with assms v have h: "\<not> h" and l: "lx' = l" and sc: "sc' = sc"
      by (auto simp: string_content_def split: if_splits)
    from content_loop_Broke [OF Broke] h have "l = lx" "stops_run (lookahead l)"
      by auto
    then show ?thesis by (simp add: l sc)
  next
    case (Returned h l)
    with assms v show ?thesis by (simp add: string_content_def)
  qed
qed

lemma string_content_at_stop:
  "stops_run (lookahead lx) \<Longrightarrow> string_content sc lx v = Fallthrough sc lx"
  by (simp add: string_content_def content_loop_stop)

lemma string_content_at_opener:
  assumes "v STRING_CONTENT" "opener_at (source_text lx) (cursor lx)"
  shows "string_content sc lx v
           = Return False sc (lx\<lparr>token_end := Some (cursor lx), cursor := Suc (cursor lx)\<rparr>)"
proof -
  from assms(2) have d: "lookahead lx = DOLLAR" by (simp add: opener_at_def lookahead_def)
  have a: "advance (mark_end lx) = lx\<lparr>token_end := Some (cursor lx), cursor := Suc (cursor lx)\<rparr>"
    using d by (rule advance_mark_end_at_dollar)
  have "lookahead (advance (mark_end lx)) = LBRACE"
    using assms(2) by (simp add: a opener_at_def lookahead_def)
  with d have "content_loop False lx = Returned False (advance (mark_end lx))"
    by (rule content_loop_opener)
  with assms(1) show ?thesis by (simp add: string_content_def a)
qed

text \<open>The result of scan, by the branch that produced it.\<close>

lemma scan_cases:
  obtains
    (start) "interpolation_start sc lx v = Return True (scanner_after (scan sc lx v)) (lexer_after (scan sc lx v))"
      "recognized (scan sc lx v)"
  | (closer) l1 where "interpolation_start sc lx v = Fallthrough sc l1"
      "interpolation_end sc l1 v = Return True (scanner_after (scan sc lx v)) (lexer_after (scan sc lx v))"
      "recognized (scan sc lx v)"
  | (content) l1 where "interpolation_start sc lx v = Fallthrough sc l1"
      "interpolation_end sc l1 v = Fallthrough sc l1"
      "string_content sc l1 v = Return (recognized (scan sc lx v)) (scanner_after (scan sc lx v)) (lexer_after (scan sc lx v))"
  | (none) l1 where "interpolation_start sc lx v = Fallthrough sc l1"
      "interpolation_end sc l1 v = Fallthrough sc l1"
      "string_content sc l1 v = Fallthrough sc l1"
      "scan sc lx v = \<lparr>recognized = False, scanner_after = sc, lexer_after = l1\<rparr>"
proof (cases "interpolation_start sc lx v")
  case (Return b s l)
  from interpolation_start_Return [OF Return] Return have "b" by simp
  with Return show ?thesis by (intro start) (simp_all add: scan_def)
next
  case f1: (Fallthrough s1 l1)
  from interpolation_start_Fallthrough [OF f1] have s1: "s1 = sc" by simp
  show ?thesis
  proof (cases "interpolation_end sc l1 v")
    case (Return b s l)
    from interpolation_end_Return [OF Return] have "b" by simp
    with Return f1 s1 show ?thesis by (intro closer [of l1]) (simp_all add: scan_def)
  next
    case f2: (Fallthrough s2 l2)
    from interpolation_end_Fallthrough [OF f2] have s2: "s2 = sc" "l2 = l1" by simp_all
    show ?thesis
    proof (cases "string_content sc l1 v")
      case (Return b s l)
      with f1 f2 s1 s2 show ?thesis by (intro content [of l1]) (simp_all add: scan_def)
    next
      case f3: (Fallthrough s3 l3)
      from string_content_Fallthrough [OF f3] have "s3 = sc" "l3 = l1" by simp_all
      with f1 f2 f3 s1 s2 show ?thesis by (intro none [of l1]) (simp_all add: scan_def)
    qed
  qed
qed

section \<open>Concrete evaluation\<close>

text \<open>The equations that evaluate scan on a concrete lexer.\<close>
lemmas eval_defs = scan_def interpolation_start_def interpolation_end_def string_content_def
  lookahead_def char_at_def advance_def mark_end_def lexer_at_def accepting_def
  content_loop.simps

section \<open>The state codec: C4 and C7\<close>

text \<open>
  C4 (as amended). \<open>deserialize\<close> of a zero-length buffer leaves the state as it
  was (so a freshly created state stays zero). For a buffer of at least
  \<open>sizeof(int)\<close> bytes it is defined, the bytes of the new \<open>brace_depth\<close> are
  exactly the first \<open>sizeof(int)\<close> bytes of the buffer, and the bytes after them
  have no influence.
\<close>
theorem deserialize_behaviour:
  "deserialize s [] = Some s
   \<and> deserialize create [] = Some \<lparr>brace_depth = 0\<rparr>
   \<and> (sizeof_int \<le> length buffer \<longrightarrow>
        (\<exists>s'. deserialize s buffer = Some s' \<and> serialize s' = take sizeof_int buffer
            \<and> deserialize s (take sizeof_int buffer) = Some s'))"
proof -
  have "bytes_of_int (int_of_bytes (take 4 buffer)) = take 4 buffer" if "4 \<le> length buffer"
    using that by (intro bytes_of_int_of_bytes) simp
  then show ?thesis
    by (auto simp: deserialize_def create_def sizeof_int_def serialize_def)
qed

text \<open>
  C4 fails as stated: on a state with \<open>brace_depth = 1\<close> a zero-length buffer does
  not give a zero state.
\<close>
theorem deserialize_empty_counterexample:
  "deserialize \<lparr>brace_depth = 1\<rparr> [] = Some \<lparr>brace_depth = 1\<rparr>
     \<and> brace_depth \<lparr>brace_depth = 1\<rparr> \<noteq> 0"
  by (simp add: deserialize_def)

text \<open>C4 (as amended) at a five-byte buffer and at the empty buffer.\<close>
theorem deserialize_behaviour_witness:
  "sizeof_int \<le> length [1, 0, 0, 0, 9 :: byte]
   \<and> deserialize \<lparr>brace_depth = 0\<rparr> [1, 0, 0, 0, 9] = Some \<lparr>brace_depth = 1\<rparr>
   \<and> serialize \<lparr>brace_depth = 1\<rparr> = [1, 0, 0, 0]
   \<and> deserialize \<lparr>brace_depth = 1\<rparr> [] = Some \<lparr>brace_depth = 1\<rparr>"
  using deserialize_behaviour [of "\<lparr>brace_depth = 0\<rparr>" "[1, 0, 0, 0, 9]"]
    deserialize_behaviour [of "\<lparr>brace_depth = 1\<rparr>" "[]"]
  by (simp add: sizeof_int_def serialize_def bytes_of_int_def deserialize_def int_of_bytes_def)

text \<open>
  C7. For every state with \<open>brace_depth\<close> 0 or 1, deserializing the bytes written
  by \<open>serialize\<close> gives that state back, whatever state the receiving scanner
  was in.
\<close>
theorem serialize_deserialize_roundtrip:
  assumes "brace_depth s = 0 \<or> brace_depth s = 1"
  shows "deserialize t (serialize s) = Some s"
  by (simp add: deserialize_serialize_any)

text \<open>C7 at the state with \<open>brace_depth = 1\<close>.\<close>
theorem serialize_deserialize_roundtrip_witness:
  "(brace_depth \<lparr>brace_depth = 1\<rparr> = 0 \<or> brace_depth \<lparr>brace_depth = 1\<rparr> = 1)
   \<and> deserialize create (serialize \<lparr>brace_depth = 1\<rparr>) = Some \<lparr>brace_depth = 1\<rparr>"
proof -
  have h: "brace_depth \<lparr>brace_depth = 1\<rparr> = 0 \<or> brace_depth \<lparr>brace_depth = 1\<rparr> = 1" by simp
  from serialize_deserialize_roundtrip [OF h, of create] h show ?thesis by simp
qed

section \<open>Declining scans and the opener branch: C1, C2 and C10\<close>

text \<open>
  C1 (as amended). When scan declines, the scanner state, the source text and the result
  slot are as they were. The cursor is not restored by scan: it is left where the
  speculative checks put it, at most two characters ahead of its position on entry,
  and every character it passed is a \<open>$\<close>. When the next character on entry is
  not \<open>$\<close>, the lexer is returned exactly as it was received.
\<close>
theorem scan_decline_frame:
  assumes "\<not> recognized (scan sc lx v)"
  shows "scanner_after (scan sc lx v) = sc
     \<and> source_text (lexer_after (scan sc lx v)) = source_text lx
     \<and> result_symbol (lexer_after (scan sc lx v)) = result_symbol lx
     \<and> cursor lx \<le> cursor (lexer_after (scan sc lx v))
     \<and> cursor (lexer_after (scan sc lx v)) \<le> cursor lx + 2
     \<and> (\<forall>i \<in> {cursor lx ..< cursor (lexer_after (scan sc lx v))}.
           char_at (source_text lx) i = DOLLAR)
     \<and> (lookahead lx \<noteq> DOLLAR \<longrightarrow> lexer_after (scan sc lx v) = lx)"
proof (cases rule: scan_cases [of sc lx v])
  case start
  with assms show ?thesis by simp
next
  case (closer l1)
  with assms show ?thesis by simp
next
  case (content l1)
  note s = interpolation_start_Fallthrough [OF content(1)]
  from assms content(3) have r: "string_content sc l1 v
        = Return False (scanner_after (scan sc lx v)) (lexer_after (scan sc lx v))"
    by simp
  from string_content_Return [OF r] obtain e where
    e: "scanner_after (scan sc lx v) = sc"
       "source_text (lexer_after (scan sc lx v)) = source_text l1"
       "e = cursor l1" "cursor (lexer_after (scan sc lx v)) = Suc e"
       "opener_at (source_text l1) e"
       "result_symbol (lexer_after (scan sc lx v)) = result_symbol l1"
    by auto
  show ?thesis
  proof (cases "v STRING_INTERPOLATION_START \<and> lookahead lx = DOLLAR")
    case True
    with s have l1: "l1 = lx\<lparr>cursor := Suc (cursor lx)\<rparr>" by simp
    from True have "char_at (source_text lx) (cursor lx) = DOLLAR" by (simp add: lookahead_def)
    moreover from e(5) have "char_at (source_text lx) (Suc (cursor lx)) = DOLLAR"
      by (simp add: opener_at_def l1 e(3))
    ultimately have "\<forall>i \<in> {cursor lx ..< Suc (Suc (cursor lx))}. char_at (source_text lx) i = DOLLAR"
      by (auto simp: less_Suc_eq)
    with e True show ?thesis by (simp add: l1)
  next
    case False
    with s have l1: "l1 = lx" by simp
    from e(5) have "char_at (source_text lx) (cursor lx) = DOLLAR"
      by (simp add: opener_at_def l1 e(3))
    with e show ?thesis by (simp add: l1 lookahead_def)
  qed
next
  case (none l1)
  note s = interpolation_start_Fallthrough [OF none(1)]
  show ?thesis
  proof (cases "v STRING_INTERPOLATION_START \<and> lookahead lx = DOLLAR")
    case True
    with s have l1: "l1 = lx\<lparr>cursor := Suc (cursor lx)\<rparr>" by simp
    from True have "char_at (source_text lx) (cursor lx) = DOLLAR" by (simp add: lookahead_def)
    with True show ?thesis by (simp add: none(4) l1)
  next
    case False
    with s have l1: "l1 = lx" by simp
    then show ?thesis by (simp add: none(4))
  qed
qed

text \<open>
  C1 fails as stated: with only InterpolationOpen accepted and the input \<open>$x\<close>,
  scan declines and leaves the cursor behind the \<open>$\<close>.
\<close>
theorem scan_decline_counterexample:
  "\<not> recognized (scan create (lexer_at [DOLLAR, 0x78] 0) (accepting [STRING_INTERPOLATION_START]))
   \<and> cursor (lexer_at [DOLLAR, 0x78] 0) = 0
   \<and> cursor (lexer_after (scan create (lexer_at [DOLLAR, 0x78] 0)
                 (accepting [STRING_INTERPOLATION_START]))) = 1"
  by (simp add: eval_defs)

text \<open>
  C1 (as amended) at two declining scans: \<open>$${\<close> with InterpolationOpen and
  LiteralTextRun accepted (the cursor ends two characters ahead), and a closing quote
  (the lexer comes back untouched).
\<close>
theorem scan_decline_frame_witness:
  "\<not> recognized (scan create (lexer_at [DOLLAR, DOLLAR, LBRACE] 0)
        (accepting [STRING_INTERPOLATION_START, STRING_CONTENT]))
   \<and> scanner_after (scan create (lexer_at [DOLLAR, DOLLAR, LBRACE] 0)
        (accepting [STRING_INTERPOLATION_START, STRING_CONTENT])) = create
   \<and> cursor (lexer_after (scan create (lexer_at [DOLLAR, DOLLAR, LBRACE] 0)
        (accepting [STRING_INTERPOLATION_START, STRING_CONTENT]))) = 2
   \<and> lookahead (lexer_at [DQUOTE] 0) \<noteq> DOLLAR
   \<and> \<not> recognized (scan create (lexer_at [DQUOTE] 0) (accepting [STRING_CONTENT]))
   \<and> lexer_after (scan create (lexer_at [DQUOTE] 0) (accepting [STRING_CONTENT]))
        = lexer_at [DQUOTE] 0"
proof -
  have h1: "\<not> recognized (scan create (lexer_at [DOLLAR, DOLLAR, LBRACE] 0)
        (accepting [STRING_INTERPOLATION_START, STRING_CONTENT]))"
    by (simp add: eval_defs)
  have c1: "cursor (lexer_after (scan create (lexer_at [DOLLAR, DOLLAR, LBRACE] 0)
        (accepting [STRING_INTERPOLATION_START, STRING_CONTENT]))) = 2"
    by (simp add: eval_defs)
  have h2: "\<not> recognized (scan create (lexer_at [DQUOTE] 0) (accepting [STRING_CONTENT]))"
    by (simp add: eval_defs)
  have h3: "lookahead (lexer_at [DQUOTE] 0) \<noteq> DOLLAR"
    by (simp add: eval_defs)
  from scan_decline_frame [OF h1] scan_decline_frame [OF h2] h1 h2 h3 c1
  show ?thesis by simp
qed

text \<open>
  C2: here the code departs from what is claimed. The opener branch advances past a
  \<open>$\<close> that is not followed by \<open>{\<close> and falls through with the cursor behind
  it, whereas the content loop counts such a \<open>$\<close> as content. On the remaining
  input \<open>$"\<close> with InterpolationOpen and LiteralTextRun accepted, the opener
  branch leaves the cursor at index 1 and scan declines; the same scan with only
  LiteralTextRun accepted, where the opener branch consumes nothing, emits the text
  run \<open>$\<close>.
\<close>
theorem lone_dollar_lost_after_opener_branch:
  "interpolation_start create (lexer_at [DOLLAR, DQUOTE] 0)
       (accepting [STRING_INTERPOLATION_START, STRING_CONTENT])
     = Fallthrough create (lexer_at [DOLLAR, DQUOTE] 1)
   \<and> \<not> recognized (scan create (lexer_at [DOLLAR, DQUOTE] 0)
         (accepting [STRING_INTERPOLATION_START, STRING_CONTENT]))
   \<and> emits (scan create (lexer_at [DOLLAR, DQUOTE] 0) (accepting [STRING_CONTENT]))
         STRING_CONTENT
   \<and> committed_text 0 (lexer_after (scan create (lexer_at [DOLLAR, DQUOTE] 0)
         (accepting [STRING_CONTENT]))) = [DOLLAR]"
  by (simp add: eval_defs emits_def committed_text_def committed_end_def)

text \<open>
  C10. When InterpolationOpen is accepted and the next two characters are \<open>$\<close>
  and \<open>{\<close>, scan emits InterpolationOpen, commits exactly these two characters
  and sets \<open>brace_depth\<close> to 1, whatever its value was before.
\<close>
theorem interpolation_open_sets_depth_one:
  assumes "v STRING_INTERPOLATION_START"
    and "opener_at (source_text lx) (cursor lx)"
  shows "emits (scan sc lx v) STRING_INTERPOLATION_START
     \<and> brace_depth (scanner_after (scan sc lx v)) = 1
     \<and> cursor (lexer_after (scan sc lx v)) = cursor lx + 2
     \<and> token_end (lexer_after (scan sc lx v)) = Some (cursor lx + 2)
     \<and> committed_text (cursor lx) (lexer_after (scan sc lx v)) = [DOLLAR, LBRACE]"
proof -
  from assms(2) have len: "Suc (cursor lx) < length (source_text lx)"
    by (auto simp: opener_at_def char_at_def split: if_splits)
  with assms(2) have "take 2 (drop (cursor lx) (source_text lx)) = [DOLLAR, LBRACE]"
    by (auto simp: opener_at_def char_at_def take_Suc_conv_app_nth numeral_2_eq_2
        take_Suc hd_drop_conv_nth drop_Suc [symmetric] Cons_nth_drop_Suc [symmetric])
  moreover note interpolation_start_opener [of v lx sc, OF assms]
  ultimately show ?thesis
    by (simp add: scan_def emits_def committed_text_def committed_end_def)
qed

text \<open>C10 on the input \<open>${b\<close>, inside an interpolation already.\<close>
theorem interpolation_open_sets_depth_one_witness:
  "accepting [STRING_INTERPOLATION_START] STRING_INTERPOLATION_START
   \<and> opener_at (source_text (lexer_at [DOLLAR, LBRACE, 0x62] 0)) (cursor (lexer_at [DOLLAR, LBRACE, 0x62] 0))
   \<and> emits (scan \<lparr>brace_depth = 1\<rparr> (lexer_at [DOLLAR, LBRACE, 0x62] 0)
              (accepting [STRING_INTERPOLATION_START])) STRING_INTERPOLATION_START
   \<and> brace_depth (scanner_after (scan \<lparr>brace_depth = 1\<rparr> (lexer_at [DOLLAR, LBRACE, 0x62] 0)
              (accepting [STRING_INTERPOLATION_START]))) = 1"
proof -
  have h1: "accepting [STRING_INTERPOLATION_START] STRING_INTERPOLATION_START"
    by (simp add: accepting_def)
  have h2: "opener_at (source_text (lexer_at [DOLLAR, LBRACE, 0x62] 0)) (cursor (lexer_at [DOLLAR, LBRACE, 0x62] 0))"
    by (simp add: opener_at_def lexer_at_def char_at_def)
  from interpolation_open_sets_depth_one
         [where v = "accepting [STRING_INTERPOLATION_START]"
            and lx = "lexer_at [DOLLAR, LBRACE, 0x62] 0" and sc = "\<lparr>brace_depth = 1\<rparr>", OF h1 h2]
       h1 h2
  show ?thesis by simp
qed

section \<open>The closer branch: C5\<close>




section \<open>Text runs: C6, C8 and C9\<close>

text \<open>
  C6 (as amended). When scan emits LiteralTextRun, the committed span is not empty and
  no index of it holds a \<open>$\<close> that is immediately followed by \<open>{\<close>. The span
  ends either in front of a stopping character, where the cursor then stands, or in
  front of an opener: there the token end is marked in front of the \<open>$\<close>, so
  \<open>$\<close> and \<open>{\<close> stay outside the token, and the \<open>{\<close> is not consumed, but
  the tentative advance past the \<open>$\<close> is not undone and the cursor stands
  between the two.
\<close>
theorem content_span_has_no_opener:
  assumes "emits (scan sc lx v) STRING_CONTENT"
  shows "\<exists>e. token_end (lexer_after (scan sc lx v)) = Some e \<and> cursor lx < e
           \<and> (\<forall>i \<in> {cursor lx ..< e}. \<not> opener_at (source_text lx) i)
           \<and> ((opener_at (source_text lx) e \<and> cursor (lexer_after (scan sc lx v)) = Suc e)
               \<or> (stops_run (char_at (source_text lx) e)
                   \<and> cursor (lexer_after (scan sc lx v)) = e))"
proof (cases rule: scan_cases [of sc lx v])
  case start
  from interpolation_start_Return [OF start(1)] assms show ?thesis
    by (simp add: emits_def)
next
  case (closer l1)
  from interpolation_end_Return [OF closer(2)] assms show ?thesis
    by (simp add: emits_def)
next
  case (content l1)
  note s = interpolation_start_Fallthrough [OF content(1)]
  from assms content(3) have r: "string_content sc l1 v
        = Return True (scanner_after (scan sc lx v)) (lexer_after (scan sc lx v))"
    by (simp add: emits_def)
  from string_content_Return [OF r] obtain e where
    e: "token_end (lexer_after (scan sc lx v)) = Some e" "cursor l1 < e"
       "plain_between (source_text l1) (cursor l1) e"
       "(stops_run (char_at (source_text l1) e) \<and> cursor (lexer_after (scan sc lx v)) = e)
         \<or> (opener_at (source_text l1) e \<and> cursor (lexer_after (scan sc lx v)) = Suc e)"
    by auto
  show ?thesis
  proof (cases "v STRING_INTERPOLATION_START \<and> lookahead lx = DOLLAR")
    case True
    with s have l1: "l1 = lx\<lparr>cursor := Suc (cursor lx)\<rparr>"
      and no: "\<not> opener_at (source_text lx) (cursor lx)" by simp_all
    from True have "\<not> stops_run (char_at (source_text lx) (cursor lx))"
      by (simp add: lookahead_def stops_run_def)
    with no e(3) have "plain_between (source_text lx) (cursor lx) e"
      by (simp add: l1 plain_between_step)
    with e show ?thesis by (auto simp: l1 plain_between_def)
  next
    case False
    with s have l1: "l1 = lx" by simp
    with e show ?thesis by (auto simp: plain_between_def)
  qed
next
  case (none l1)
  with assms show ?thesis by (simp add: emits_def)
qed

text \<open>
  C6 fails as stated in its last clause: on \<open>a${b\<close> with LiteralTextRun accepted
  the run \<open>a\<close> is emitted with the token end at index 1, in front of the
  \<open>$\<close>, but the cursor is left at index 2: the \<open>$\<close> has been advanced over.
\<close>
theorem content_opener_dollar_counterexample:
  "emits (scan create (lexer_at [0x61, DOLLAR, LBRACE, 0x62] 0) (accepting [STRING_CONTENT]))
      STRING_CONTENT
   \<and> char_at [0x61, DOLLAR, LBRACE, 0x62] 1 = DOLLAR
   \<and> token_end (lexer_after (scan create (lexer_at [0x61, DOLLAR, LBRACE, 0x62] 0)
        (accepting [STRING_CONTENT]))) = Some 1
   \<and> cursor (lexer_after (scan create (lexer_at [0x61, DOLLAR, LBRACE, 0x62] 0)
        (accepting [STRING_CONTENT]))) = 2"
  by (simp add: eval_defs emits_def)

text \<open>C6 (as amended) on the input \<open>a${b\<close>: the run is \<open>a\<close>.\<close>
theorem content_span_has_no_opener_witness:
  "emits (scan create (lexer_at [0x61, DOLLAR, LBRACE, 0x62] 0) (accepting [STRING_CONTENT]))
      STRING_CONTENT
   \<and> token_end (lexer_after (scan create (lexer_at [0x61, DOLLAR, LBRACE, 0x62] 0)
        (accepting [STRING_CONTENT]))) = Some 1
   \<and> cursor (lexer_at [0x61, DOLLAR, LBRACE, 0x62] 0) = 0
   \<and> \<not> opener_at (source_text (lexer_at [0x61, DOLLAR, LBRACE, 0x62] 0)) 0
   \<and> opener_at (source_text (lexer_at [0x61, DOLLAR, LBRACE, 0x62] 0)) 1
   \<and> cursor (lexer_after (scan create (lexer_at [0x61, DOLLAR, LBRACE, 0x62] 0)
        (accepting [STRING_CONTENT]))) = Suc 1"
proof -
  have h: "emits (scan create (lexer_at [0x61, DOLLAR, LBRACE, 0x62] 0) (accepting [STRING_CONTENT]))
      STRING_CONTENT"
    by (simp add: emits_def eval_defs)
  have t: "token_end (lexer_after (scan create (lexer_at [0x61, DOLLAR, LBRACE, 0x62] 0)
        (accepting [STRING_CONTENT]))) = Some 1"
    by (simp add: eval_defs)
  have c: "cursor (lexer_at [0x61, DOLLAR, LBRACE, 0x62] 0) = 0"
    by (simp add: lexer_at_def)
  have o: "opener_at (source_text (lexer_at [0x61, DOLLAR, LBRACE, 0x62] 0)) 1"
    "\<not> stops_run (char_at (source_text (lexer_at [0x61, DOLLAR, LBRACE, 0x62] 0)) 1)"
    by (simp_all add: opener_at_def stops_run_def lexer_at_def char_at_def)
  from content_span_has_no_opener [OF h] h t c o show ?thesis by auto
qed

text \<open>
  C8. A text run that is emitted is not empty, contains no closing quote, no end-of-input
  sentinel and no escape introducer, and ends exactly in front of one of them (where
  the cursor then stands) or in front of an opener. A scan that starts at a closing
  quote, at the end of input or at an escape introducer declines and returns the lexer
  untouched. A scan that starts at \<open>${\<close> with LiteralTextRun accepted never emits
  LiteralTextRun: it emits InterpolationOpen when that kind is accepted too, and
  declines otherwise.
\<close>
theorem content_run_stops_and_declines:
  "(emits (scan sc lx v) STRING_CONTENT \<longrightarrow>
      (\<exists>e. token_end (lexer_after (scan sc lx v)) = Some e \<and> cursor lx < e
         \<and> (\<forall>i \<in> {cursor lx ..< e}. \<not> stops_run (char_at (source_text lx) i))
         \<and> ((stops_run (char_at (source_text lx) e) \<and> cursor (lexer_after (scan sc lx v)) = e)
             \<or> (opener_at (source_text lx) e \<and> cursor (lexer_after (scan sc lx v)) = Suc e))))
   \<and> (stops_run (lookahead lx) \<longrightarrow>
        scan sc lx v = \<lparr>recognized = False, scanner_after = sc, lexer_after = lx\<rparr>)
   \<and> (v STRING_CONTENT \<and> opener_at (source_text lx) (cursor lx) \<longrightarrow>
        \<not> emits (scan sc lx v) STRING_CONTENT
        \<and> (v STRING_INTERPOLATION_START \<longrightarrow> emits (scan sc lx v) STRING_INTERPOLATION_START)
        \<and> (\<not> v STRING_INTERPOLATION_START \<longrightarrow> \<not> recognized (scan sc lx v)))"
proof (intro conjI impI)
  assume em: "emits (scan sc lx v) STRING_CONTENT"
  show "\<exists>e. token_end (lexer_after (scan sc lx v)) = Some e \<and> cursor lx < e
         \<and> (\<forall>i \<in> {cursor lx ..< e}. \<not> stops_run (char_at (source_text lx) i))
         \<and> ((stops_run (char_at (source_text lx) e) \<and> cursor (lexer_after (scan sc lx v)) = e)
             \<or> (opener_at (source_text lx) e \<and> cursor (lexer_after (scan sc lx v)) = Suc e))"
  proof (cases rule: scan_cases [of sc lx v])
    case start
    from interpolation_start_Return [OF start(1)] em show ?thesis
      by (simp add: emits_def)
  next
    case (closer l1)
    from interpolation_end_Return [OF closer(2)] em show ?thesis
      by (simp add: emits_def)
  next
    case (content l1)
    note s = interpolation_start_Fallthrough [OF content(1)]
    from em content(3) have r: "string_content sc l1 v
        = Return True (scanner_after (scan sc lx v)) (lexer_after (scan sc lx v))"
      by (simp add: emits_def)
    from string_content_Return [OF r] obtain e where
      e: "token_end (lexer_after (scan sc lx v)) = Some e" "cursor l1 < e"
       "plain_between (source_text l1) (cursor l1) e"
       "(stops_run (char_at (source_text l1) e) \<and> cursor (lexer_after (scan sc lx v)) = e)
         \<or> (opener_at (source_text l1) e \<and> cursor (lexer_after (scan sc lx v)) = Suc e)"
      by auto
    show ?thesis
    proof (cases "v STRING_INTERPOLATION_START \<and> lookahead lx = DOLLAR")
      case True
      with s have l1: "l1 = lx\<lparr>cursor := Suc (cursor lx)\<rparr>"
        and no: "\<not> opener_at (source_text lx) (cursor lx)" by simp_all
      from True have "\<not> stops_run (char_at (source_text lx) (cursor lx))"
        by (simp add: lookahead_def stops_run_def)
      with no e(3) have "plain_between (source_text lx) (cursor lx) e"
        by (simp add: l1 plain_between_step)
      with e show ?thesis by (auto simp: l1 plain_between_def)
    next
      case False
      with s have l1: "l1 = lx" by simp
      with e show ?thesis by (auto simp: plain_between_def)
    qed
  next
    case (none l1)
    with em show ?thesis by (simp add: emits_def)
  qed
next
  assume st: "stops_run (lookahead lx)"
  then have "lookahead lx \<noteq> DOLLAR" "lookahead lx \<noteq> RBRACE"
    by (auto simp: stops_run_def)
  then have "interpolation_start sc lx v = Fallthrough sc lx"
    "interpolation_end sc lx v = Fallthrough sc lx"
    by (simp_all add: interpolation_start_def interpolation_end_def)
  with string_content_at_stop [OF st, of sc v]
  show "scan sc lx v = \<lparr>recognized = False, scanner_after = sc, lexer_after = lx\<rparr>"
    by (simp add: scan_def)
next
  assume a: "v STRING_CONTENT \<and> opener_at (source_text lx) (cursor lx)"
  then have op: "opener_at (source_text lx) (cursor lx)" and vc: "v STRING_CONTENT" by simp_all
  have st: "v STRING_INTERPOLATION_START \<Longrightarrow> emits (scan sc lx v) STRING_INTERPOLATION_START"
    using interpolation_start_opener [of v lx sc, OF _ op]
    by (simp add: scan_def emits_def)
  have nst: "\<not> recognized (scan sc lx v)" if n: "\<not> v STRING_INTERPOLATION_START"
  proof -
    from n have "interpolation_start sc lx v = Fallthrough sc lx"
      by (simp add: interpolation_start_def)
    moreover from op have "lookahead lx \<noteq> RBRACE" by (auto simp: opener_at_def lookahead_def)
    then have "interpolation_end sc lx v = Fallthrough sc lx"
      by (simp add: interpolation_end_def)
    moreover note string_content_at_opener [of v lx sc, OF vc op]
    ultimately show ?thesis by (simp add: scan_def)
  qed
  show "\<not> emits (scan sc lx v) STRING_CONTENT"
    using st nst by (cases "v STRING_INTERPOLATION_START") (auto simp: emits_def)
  show "emits (scan sc lx v) STRING_INTERPOLATION_START" if "v STRING_INTERPOLATION_START"
    using that by (rule st)
  show "\<not> recognized (scan sc lx v)" if "\<not> v STRING_INTERPOLATION_START"
    using that by (rule nst)
qed

text \<open>
  C8 on the inputs \<open>ab"\<close>, \<open>\n\<close> (backslash, n) and \<open>${\<close>, the last one
  with and without InterpolationOpen accepted.
\<close>
theorem content_run_stops_and_declines_witness:
  "emits (scan create (lexer_at [0x61, 0x62, DQUOTE] 0) (accepting [STRING_CONTENT])) STRING_CONTENT
   \<and> token_end (lexer_after (scan create (lexer_at [0x61, 0x62, DQUOTE] 0)
        (accepting [STRING_CONTENT]))) = Some 2
   \<and> cursor (lexer_after (scan create (lexer_at [0x61, 0x62, DQUOTE] 0)
        (accepting [STRING_CONTENT]))) = 2
   \<and> stops_run (lookahead (lexer_at [BACKSLASH, 0x6E] 0))
   \<and> scan create (lexer_at [BACKSLASH, 0x6E] 0) (accepting [STRING_CONTENT])
        = \<lparr>recognized = False, scanner_after = create, lexer_after = lexer_at [BACKSLASH, 0x6E] 0\<rparr>
   \<and> (accepting [STRING_CONTENT, STRING_INTERPOLATION_START] STRING_CONTENT
        \<and> opener_at (source_text (lexer_at [DOLLAR, LBRACE] 0)) (cursor (lexer_at [DOLLAR, LBRACE] 0)))
   \<and> accepting [STRING_CONTENT, STRING_INTERPOLATION_START] STRING_INTERPOLATION_START
   \<and> emits (scan create (lexer_at [DOLLAR, LBRACE] 0)
        (accepting [STRING_CONTENT, STRING_INTERPOLATION_START])) STRING_INTERPOLATION_START
   \<and> \<not> accepting [STRING_CONTENT] STRING_INTERPOLATION_START
   \<and> \<not> recognized (scan create (lexer_at [DOLLAR, LBRACE] 0) (accepting [STRING_CONTENT]))"
proof -
  have h1: "emits (scan create (lexer_at [0x61, 0x62, DQUOTE] 0) (accepting [STRING_CONTENT]))
      STRING_CONTENT"
    by (simp add: emits_def eval_defs)
  have h2: "stops_run (lookahead (lexer_at [BACKSLASH, 0x6E] 0))"
    by (simp add: stops_run_def lookahead_def lexer_at_def char_at_def)
  have h3: "opener_at (source_text (lexer_at [DOLLAR, LBRACE] 0)) (cursor (lexer_at [DOLLAR, LBRACE] 0))"
    by (simp add: opener_at_def lexer_at_def char_at_def)
  have v: "accepting [STRING_CONTENT, STRING_INTERPOLATION_START] STRING_CONTENT"
    "accepting [STRING_CONTENT, STRING_INTERPOLATION_START] STRING_INTERPOLATION_START"
    "accepting [STRING_CONTENT] STRING_CONTENT"
    "\<not> accepting [STRING_CONTENT] STRING_INTERPOLATION_START"
    by (simp_all add: accepting_def)
  note run = content_run_stops_and_declines
      [where v = "accepting [STRING_CONTENT]" and lx = "lexer_at [0x61, 0x62, DQUOTE] 0"
         and sc = create]
  note stop = content_run_stops_and_declines
      [where v = "accepting [STRING_CONTENT]" and lx = "lexer_at [BACKSLASH, 0x6E] 0"
         and sc = create]
  note both = content_run_stops_and_declines
      [where v = "accepting [STRING_CONTENT, STRING_INTERPOLATION_START]"
         and lx = "lexer_at [DOLLAR, LBRACE] 0" and sc = create]
  note only = content_run_stops_and_declines
      [where v = "accepting [STRING_CONTENT]" and lx = "lexer_at [DOLLAR, LBRACE] 0"
         and sc = create]
  from run h1 obtain e where e: "token_end (lexer_after (scan create
        (lexer_at [0x61, 0x62, DQUOTE] 0) (accepting [STRING_CONTENT]))) = Some e"
    by blast
  have t: "token_end (lexer_after (scan create (lexer_at [0x61, 0x62, DQUOTE] 0)
        (accepting [STRING_CONTENT]))) = Some 2"
    "cursor (lexer_after (scan create (lexer_at [0x61, 0x62, DQUOTE] 0)
        (accepting [STRING_CONTENT]))) = 2"
    using e by (simp_all add: eval_defs)
  from stop h2 have s: "scan create (lexer_at [BACKSLASH, 0x6E] 0) (accepting [STRING_CONTENT])
        = \<lparr>recognized = False, scanner_after = create, lexer_after = lexer_at [BACKSLASH, 0x6E] 0\<rparr>"
    by blast
  from both v h3 have b: "emits (scan create (lexer_at [DOLLAR, LBRACE] 0)
        (accepting [STRING_CONTENT, STRING_INTERPOLATION_START])) STRING_INTERPOLATION_START"
    by blast
  from only v h3 have n: "\<not> recognized (scan create (lexer_at [DOLLAR, LBRACE] 0)
        (accepting [STRING_CONTENT]))"
    by blast
  from h1 h2 h3 v t s b n show ?thesis by blast
qed

lemma char_at_append: "char_at (pre @ txt) (length pre + k) = char_at txt k"
  by (simp add: char_at_def nth_append)

text \<open>
  C9. With LiteralTextRun accepted and the remaining input \<open>x$y"\<close> (anything may
  precede the cursor and follow the quote), scan emits one LiteralTextRun whose
  committed span is \<open>x$y\<close>; the cursor stops at the closing quote and the state
  is unchanged.
\<close>
theorem dollar_without_brace_is_content:
  assumes "v STRING_CONTENT"
    and "source_text lx = pre @ [0x78, DOLLAR, 0x79, DQUOTE] @ rest"
    and "cursor lx = length pre"
  shows "emits (scan sc lx v) STRING_CONTENT
     \<and> committed_text (cursor lx) (lexer_after (scan sc lx v)) = [0x78, DOLLAR, 0x79]
     \<and> cursor (lexer_after (scan sc lx v)) = cursor lx + 3
     \<and> lookahead (lexer_after (scan sc lx v)) = DQUOTE
     \<and> scanner_after (scan sc lx v) = sc"
proof -
  let ?txt = "source_text lx"
  have c: "char_at ?txt (length pre) = 0x78" "char_at ?txt (Suc (length pre)) = DOLLAR"
    "char_at ?txt (Suc (Suc (length pre))) = 0x79"
    "char_at ?txt (Suc (Suc (Suc (length pre)))) = DQUOTE"
    using char_at_append [of pre "[0x78, DOLLAR, 0x79, DQUOTE] @ rest" 0]
      char_at_append [of pre "[0x78, DOLLAR, 0x79, DQUOTE] @ rest" 1]
      char_at_append [of pre "[0x78, DOLLAR, 0x79, DQUOTE] @ rest" 2]
      char_at_append [of pre "[0x78, DOLLAR, 0x79, DQUOTE] @ rest" 3]
    by (simp_all add: assms(2) char_at_def numeral_3_eq_3 numeral_2_eq_2)
  have len: "length pre + 4 \<le> length ?txt" by (simp add: assms(2))
  let ?l1 = "lx\<lparr>cursor := Suc (length pre)\<rparr>"
  let ?l2 = "lx\<lparr>token_end := Some (Suc (length pre)), cursor := Suc (Suc (length pre))\<rparr>"
  let ?l3 = "lx\<lparr>token_end := Some (Suc (length pre)), cursor := Suc (Suc (Suc (length pre)))\<rparr>"
  have s: "interpolation_start sc lx v = Fallthrough sc lx"
    by (simp add: interpolation_start_def lookahead_def assms(3) c)
  have e: "interpolation_end sc lx v = Fallthrough sc lx"
    by (simp add: interpolation_end_def lookahead_def assms(3) c)
  have "content_loop False lx = content_loop True (advance lx)"
    by (rule content_loop_plain) (simp_all add: lookahead_def assms(3) c stops_run_def)
  also have "advance lx = ?l1"
    using len by (simp add: advance_def assms(3))
  also have "content_loop True ?l1 = content_loop True (advance (mark_end ?l1))"
    by (rule content_loop_dollar) (simp_all add: lookahead_def c advance_def mark_end_def)
  also have "advance (mark_end ?l1) = ?l2"
    using len by (simp add: advance_def mark_end_def)
  also have "content_loop True ?l2 = content_loop True (advance ?l2)"
    by (rule content_loop_plain) (simp_all add: lookahead_def c stops_run_def)
  also have "advance ?l2 = ?l3"
    using len by (simp add: advance_def)
  also have "content_loop True ?l3 = Broke True ?l3"
    by (rule content_loop_stop) (simp add: lookahead_def c stops_run_def)
  finally have loop: "content_loop False lx = Broke True ?l3" .
  have r: "scan sc lx v = \<lparr>recognized = True, scanner_after = sc,
      lexer_after = lx\<lparr>token_end := Some (length pre + 3), cursor := length pre + 3,
        result_symbol := STRING_CONTENT\<rparr>\<rparr>"
    using assms(1) by (simp add: scan_def s e string_content_def loop mark_end_def)
  have ct: "take 3 (drop (length pre) ?txt) = [0x78, DOLLAR, 0x79]"
    by (simp add: assms(2))
  have la: "char_at ?txt (length pre + 3) = DQUOTE"
    using c(4) by (simp add: numeral_3_eq_3)
  show ?thesis
    by (simp add: r emits_def committed_text_def committed_end_def assms(3) lookahead_def ct la)
qed

text \<open>C9 on the string literal \<open>"x$y"\<close>, scanned from behind its opening quote.\<close>
theorem dollar_without_brace_is_content_witness:
  "accepting [STRING_CONTENT, STRING_INTERPOLATION_START, STRING_INTERPOLATION_END] STRING_CONTENT
   \<and> source_text (lexer_at [DQUOTE, 0x78, DOLLAR, 0x79, DQUOTE] 1)
        = [DQUOTE] @ [0x78, DOLLAR, 0x79, DQUOTE] @ []
   \<and> cursor (lexer_at [DQUOTE, 0x78, DOLLAR, 0x79, DQUOTE] 1) = length [DQUOTE]
   \<and> emits (scan create (lexer_at [DQUOTE, 0x78, DOLLAR, 0x79, DQUOTE] 1)
        (accepting [STRING_CONTENT, STRING_INTERPOLATION_START, STRING_INTERPOLATION_END]))
        STRING_CONTENT
   \<and> committed_text 1 (lexer_after (scan create (lexer_at [DQUOTE, 0x78, DOLLAR, 0x79, DQUOTE] 1)
        (accepting [STRING_CONTENT, STRING_INTERPOLATION_START, STRING_INTERPOLATION_END])))
        = [0x78, DOLLAR, 0x79]"
proof -
  have h1: "accepting [STRING_CONTENT, STRING_INTERPOLATION_START, STRING_INTERPOLATION_END]
      STRING_CONTENT"
    by (simp add: accepting_def)
  have h2: "source_text (lexer_at [DQUOTE, 0x78, DOLLAR, 0x79, DQUOTE] 1)
        = [DQUOTE] @ [0x78, DOLLAR, 0x79, DQUOTE] @ []"
    by (simp add: lexer_at_def)
  have h3: "cursor (lexer_at [DQUOTE, 0x78, DOLLAR, 0x79, DQUOTE] 1) = length [DQUOTE :: int32]"
    by (simp add: lexer_at_def)
  have c: "cursor (lexer_at [DQUOTE, 0x78, DOLLAR, 0x79, DQUOTE] 1) = 1"
    by (simp add: lexer_at_def)
  from dollar_without_brace_is_content
         [where v = "accepting [STRING_CONTENT, STRING_INTERPOLATION_START, STRING_INTERPOLATION_END]"
            and lx = "lexer_at [DQUOTE, 0x78, DOLLAR, 0x79, DQUOTE] 1"
            and pre = "[DQUOTE]" and rest = "[]" and sc = create, OF h1 h2 h3]
       h1 h2 h3
  show ?thesis by (simp add: c)
qed

section \<open>Sessions: C3\<close>

lemma scan_preserves_depth_ok:
  assumes "depth_ok sc"
  shows "depth_ok (scanner_after (scan sc lx v))"
proof (cases rule: scan_cases [of sc lx v])
  case start
  from interpolation_start_Return [OF start(1)] show ?thesis by (simp add: depth_ok_def)
next
  case (closer l1)
  from interpolation_end_Return [OF closer(2)] show ?thesis by (simp add: depth_ok_def)
next
  case (content l1)
  from string_content_Return [OF content(3)] assms show ?thesis by simp
next
  case (none l1)
  with assms show ?thesis by simp
qed

lemma deserialize_restorable:
  assumes "restorable buffer" "depth_ok s"
  shows "\<exists>s'. deserialize s buffer = Some s' \<and> depth_ok s'"
  using assms by (auto simp: restorable_def deserialize_def depth_ok_def)

lemma serialize_restorable: "depth_ok s \<Longrightarrow> restorable (serialize s)"
  by (auto simp: restorable_def serialize_def sizeof_int_def length_bytes_of_int
      int_of_bytes_of_int depth_ok_def)

lemma snapshot_buffer_restorable:
  assumes "list_all restorable snaps"
  shows "restorable (snapshot_buffer snaps which)"
proof (cases which)
  case None
  then show ?thesis by (simp add: snapshot_buffer_def restorable_def)
next
  case (Some k)
  show ?thesis
  proof (cases "k < length snaps")
    case True
    with assms have "restorable (snaps ! k)" by (simp add: list_all_length)
    with True Some show ?thesis by (simp add: snapshot_buffer_def)
  next
    case False
    with Some show ?thesis by (simp add: snapshot_buffer_def restorable_def)
  qed
qed

lemma apply_operation_host_ok:
  assumes "host_ok host"
  shows "\<exists>host'. apply_operation host operation = Some host' \<and> host_ok host'"
proof (cases operation)
  case Create
  with assms show ?thesis by (simp add: host_ok_def depth_ok_def create_def)
next
  case (Scan lexer valid_symbols)
  with assms show ?thesis by (simp add: host_ok_def scan_preserves_depth_ok)
next
  case Serialize
  with assms show ?thesis by (simp add: host_ok_def serialize_restorable)
next
  case (Deserialize which)
  from assms have "restorable (snapshot_buffer (snapshots host) which)"
    by (simp add: host_ok_def snapshot_buffer_restorable)
  with assms obtain s' where
    "deserialize (payload host) (snapshot_buffer (snapshots host) which) = Some s'" "depth_ok s'"
    using deserialize_restorable by (auto simp: host_ok_def)
  with assms Deserialize show ?thesis by (simp add: host_ok_def)
qed

lemma session_host_ok:
  "host_ok host \<Longrightarrow> \<exists>host'. session host operations = Some host' \<and> host_ok host'"
proof (induction operations arbitrary: host)
  case Nil
  then show ?case by simp
next
  case (Cons operation operations)
  from apply_operation_host_ok [OF Cons.prems, of operation]
  obtain h1 where h1: "apply_operation host operation = Some h1" "host_ok h1" by auto
  from Cons.IH [OF h1(2)] h1(1) show ?case by simp
qed

text \<open>
  C3. Every sequence of operations of a session (creating the scanner, scanning any
  text with any accepted kinds, taking a snapshot, restoring any snapshot taken
  before or the empty buffer) is defined and ends in a state whose \<open>brace_depth\<close>
  is 0 or 1. A prefix of a session being a session, this holds after every operation.
\<close>
theorem session_depth_invariant:
  "\<exists>host. session new_session operations = Some host \<and> depth_ok (payload host)"
proof -
  have "host_ok new_session"
    by (simp add: host_ok_def new_session_def depth_ok_def create_def)
  from session_host_ok [OF this, of operations] show ?thesis
    by (auto simp: host_ok_def)
qed

text \<open>
  C3 on a session that opens an interpolation, takes a snapshot, closes the
  interpolation, restores the snapshot, creates the scanner anew and restores the
  empty buffer and the snapshot again.
\<close>
theorem session_depth_invariant_witness:
  "session new_session
     [Scan (lexer_at [DOLLAR, LBRACE] 0) (accepting [STRING_INTERPOLATION_START]),
      Serialize,
      Scan (lexer_at [RBRACE] 0) (accepting [STRING_INTERPOLATION_END]),
      Deserialize (Some 0), Create, Deserialize None, Deserialize (Some 0)]
     = Some \<lparr>payload = \<lparr>brace_depth = 1\<rparr>, snapshots = [[1, 0, 0, 0]]\<rparr>
   \<and> depth_ok \<lparr>brace_depth = 1\<rparr>"
proof -
  have run: "session new_session
     [Scan (lexer_at [DOLLAR, LBRACE] 0) (accepting [STRING_INTERPOLATION_START]),
      Serialize,
      Scan (lexer_at [RBRACE] 0) (accepting [STRING_INTERPOLATION_END]),
      Deserialize (Some 0), Create, Deserialize None, Deserialize (Some 0)]
     = Some \<lparr>payload = \<lparr>brace_depth = 1\<rparr>, snapshots = [[1, 0, 0, 0]]\<rparr>"
    by (simp add: eval_defs new_session_def create_def serialize_def deserialize_def
        sizeof_int_def bytes_of_int_def int_of_bytes_def snapshot_buffer_def word_sless_alt)
  from session_depth_invariant
         [of "[Scan (lexer_at [DOLLAR, LBRACE] 0) (accepting [STRING_INTERPOLATION_START]),
      Serialize,
      Scan (lexer_at [RBRACE] 0) (accepting [STRING_INTERPOLATION_END]),
      Deserialize (Some 0), Create, Deserialize None, Deserialize (Some 0)]"] run
  show ?thesis by simp
qed

end
